theory Spec2Isabelle
  imports Main "HOL-Library.Monad_Syntax" "HOL-Library.Multiset"
begin

section \<open>The intrusive binary min-heap of olsrd (heap.c, heap.h)\<close>

text \<open>
  The heap has no backing array: every node carries a key and three pointers, and the
  control structure holds the node count and pointers to the root and to the last node in
  level order. Pointers are modelled as \<open>addr option\<close> (\<open>None\<close> is \<open>NULL\<close>), the node
  memory as a total function from addresses to node records, and every source function as
  a function on the pair of control structure and node memory. A function that dereferences
  a pointer or loops returns an \<open>option\<close>: \<open>None\<close> stands for a run that does not return
  (a \<open>NULL\<close> dereference, or a loop that never ends).

  The key type \<open>olsr_linkcost\<close> is declared in a header outside the sources at hand; the
  code only compares keys, so the key type is a parameter of class \<open>linorder\<close>.
  \<open>count\<close> is an \<open>unsigned int\<close>: it is a \<open>nat\<close> here, with the wrap-around modulo
  \<open>2 ^ 32\<close> written out at every increment and decrement.
\<close>

subsection \<open>Data (heap.h)\<close>

type_synonym addr = nat

record 'k heap_node =
  key :: 'k
  parent :: "addr option"
  left :: "addr option"
  right :: "addr option"

record bin_heap =
  count :: nat
  root_node :: "addr option"
  last_node :: "addr option"

type_synonym 'k mem = "addr \<Rightarrow> 'k heap_node"
type_synonym 'k state = "bin_heap \<times> 'k mem"

definition u32 :: "nat \<Rightarrow> nat" where
  "u32 n = n mod 4294967296"

definition set_parent :: "'k mem \<Rightarrow> addr \<Rightarrow> addr option \<Rightarrow> 'k mem" where
  "set_parent m a v = m(a := (m a)\<lparr>parent := v\<rparr>)"

definition set_left :: "'k mem \<Rightarrow> addr \<Rightarrow> addr option \<Rightarrow> 'k mem" where
  "set_left m a v = m(a := (m a)\<lparr>left := v\<rparr>)"

definition set_right :: "'k mem \<Rightarrow> addr \<Rightarrow> addr option \<Rightarrow> 'k mem" where
  "set_right m a v = m(a := (m a)\<lparr>right := v\<rparr>)"

text \<open>The source's idiom \<open>if (x) x->parent = v\<close>.\<close>

definition set_parent_opt :: "'k mem \<Rightarrow> addr option \<Rightarrow> addr option \<Rightarrow> 'k mem" where
  "set_parent_opt m x v = (case x of None \<Rightarrow> m | Some a \<Rightarrow> set_parent m a v)"

definition set_key :: "'k mem \<Rightarrow> addr \<Rightarrow> 'k \<Rightarrow> 'k mem" where
  "set_key m a k = m(a := (m a)\<lparr>key := k\<rparr>)"

subsection \<open>Inline queries (heap.h)\<close>

definition heap_get_size :: "'k state \<Rightarrow> nat" where
  "heap_get_size s = count (fst s)"

definition heap_get_root_node :: "'k state \<Rightarrow> addr option" where
  "heap_get_root_node s = root_node (fst s)"

definition heap_is_empty :: "'k state \<Rightarrow> bool" where
  "heap_is_empty s = (count (fst s) = 0)"

definition heap_is_node_added :: "'k state \<Rightarrow> addr option \<Rightarrow> bool" where
  "heap_is_node_added s node =
     (case node of
        None \<Rightarrow> False
      | Some n \<Rightarrow>
          if parent (snd s n) \<noteq> None \<or> left (snd s n) \<noteq> None \<or> right (snd s n) \<noteq> None
          then True
          else if Some n = heap_get_root_node s then True
          else False)"

subsection \<open>Initialisation (heap.c)\<close>

definition heap_init :: "'k state \<Rightarrow> 'k state" where
  "heap_init s = ((fst s)\<lparr>count := 0, root_node := None, last_node := None\<rparr>, snd s)"

definition heap_init_node :: "'k mem \<Rightarrow> addr \<Rightarrow> 'k mem" where
  "heap_init_node m node = m(node := (m node)\<lparr>parent := None, left := None, right := None\<rparr>)"

subsection \<open>The shape navigator (heap.c)\<close>

text \<open>
  \<open>heap_perfect_log2\<close>: the loop \<open>while (number >>= 1) ++log\<close>, then
  \<open>original_number - (1 << log)\<close>, returned as \<open>unsigned int\<close>. For \<open>number < 2 ^ 31\<close>
  every intermediate value fits the source's \<open>int\<close> variables.
\<close>

function log2_loop :: "nat \<Rightarrow> nat \<Rightarrow> nat" where
  "log2_loop number log = (if number div 2 \<noteq> 0 then log2_loop (number div 2) (log + 1) else log)"
  by pat_completeness auto
termination
  by (relation "measure (\<lambda>(number, log). number)") auto

definition heap_perfect_log2 :: "nat \<Rightarrow> nat" where
  "heap_perfect_log2 number = u32 (number + 4294967296 - u32 (2 ^ log2_loop number 0))"

text \<open>The pointer walks of the two navigators; each is one \<open>while\<close> loop of the source.\<close>

partial_function (option) descend_left :: "'k mem \<Rightarrow> addr \<Rightarrow> addr option" where
  "descend_left m aux = (case left (m aux) of None \<Rightarrow> Some aux | Some l \<Rightarrow> descend_left m l)"

partial_function (option) descend_right :: "'k mem \<Rightarrow> addr \<Rightarrow> addr option" where
  "descend_right m aux = (case right (m aux) of None \<Rightarrow> Some aux | Some r \<Rightarrow> descend_right m r)"

partial_function (option) climb_while_right :: "'k mem \<Rightarrow> addr \<Rightarrow> addr option" where
  "climb_while_right m aux =
     (case parent (m aux) of
        None \<Rightarrow> None
      | Some p \<Rightarrow> if right (m p) = Some aux then climb_while_right m p else Some aux)"

partial_function (option) climb_while_left :: "'k mem \<Rightarrow> addr \<Rightarrow> addr option" where
  "climb_while_left m aux =
     (case parent (m aux) of
        None \<Rightarrow> None
      | Some p \<Rightarrow> if left (m p) = Some aux then climb_while_left m p else Some aux)"

text \<open>
  Both navigators return a pointer, which may be \<open>NULL\<close>: the result is
  \<open>Some ptr\<close> when the function returns \<open>ptr\<close>, and \<open>None\<close> when it does not return.
\<close>

definition heap_find_parent_insert_node :: "'k state \<Rightarrow> addr option option" where
  "heap_find_parent_insert_node s =
     (let h = fst s; m = snd s; N = u32 (count h + 1) in
      if heap_perfect_log2 N = 0 then
        (case root_node h of
           None \<Rightarrow> None
         | Some r \<Rightarrow> map_option Some (descend_left m r))
      else if N mod 2 = 0 then
        (case last_node h of
           None \<Rightarrow> None
         | Some l \<Rightarrow>
             (case climb_while_right m l of
                None \<Rightarrow> None
              | Some aux \<Rightarrow>
                  (case parent (m aux) of
                     None \<Rightarrow> None
                   | Some p \<Rightarrow>
                       (case right (m p) of
                          None \<Rightarrow> Some (Some p)
                        | Some r \<Rightarrow> map_option Some (descend_left m r)))))
      else
        (case last_node h of
           None \<Rightarrow> None
         | Some l \<Rightarrow> Some (parent (m l))))"

definition heap_find_last_node :: "'k state \<Rightarrow> addr option option" where
  "heap_find_last_node s =
     (let h = fst s; m = snd s; N = u32 (count h + 1) in
      if heap_perfect_log2 N = 0 then
        (case root_node h of
           None \<Rightarrow> None
         | Some r \<Rightarrow> map_option Some (descend_right m r))
      else if N mod 2 = 0 then
        (case last_node h of
           None \<Rightarrow> None
         | Some l \<Rightarrow>
             (case climb_while_left m l of
                None \<Rightarrow> None
              | Some aux \<Rightarrow>
                  (case parent (m aux) of
                     None \<Rightarrow> None
                   | Some p \<Rightarrow>
                       (case left (m p) of
                          None \<Rightarrow> None
                        | Some l' \<Rightarrow> map_option Some (descend_right m l')))))
      else Some (last_node h))"

subsection \<open>Sift-up: \<open>heap_decrease_key\<close> and \<open>heap_insert\<close> (heap.c)\<close>

text \<open>
  One pass through the body of the \<open>while\<close> loop of \<open>heap_decrease_key\<close>: \<open>node\<close> changes
  places with \<open>p\<close>, its parent; \<open>l\<close> and \<open>r\<close> are the locals \<open>left\<close> and \<open>right\<close>.
  The assignments are in the source's order.
\<close>

definition hook_under_grandparent :: "'k state \<Rightarrow> addr \<Rightarrow> addr \<Rightarrow> 'k state" where
  "hook_under_grandparent s node p =
     (let h = fst s; m = snd s in
      case parent (m node) of
        Some g \<Rightarrow>
          if left (m g) = Some p then (h, set_left m g (Some node))
          else (h, set_right m g (Some node))
      | None \<Rightarrow> (h\<lparr>root_node := Some node\<rparr>, m))"

definition decrease_step :: "'k state \<Rightarrow> addr \<Rightarrow> addr \<Rightarrow> addr option \<Rightarrow> addr option \<Rightarrow> 'k state" where
  "decrease_step s node p l r =
     (let h = fst s; m = snd s;
          s4 =
            (if left (m p) = Some node then
               (let m1 = set_left m node (Some p);
                    m2 = set_right m1 node (right (m1 p));
                    m3 = set_parent_opt m2 (right (m2 node)) (Some node);
                    m4 = set_parent m3 node (parent (m3 p))
                in hook_under_grandparent (h, m4) node p)
             else
               (let m1 = set_right m node (Some p);
                    m2 = set_left m1 node (left (m1 p));
                    m3 = set_parent_opt m2 (left (m2 node)) (Some node);
                    m4 = set_parent m3 node (parent (m3 p))
                in hook_under_grandparent (h, m4) node p));
          h4 = fst s4; m4 = snd s4;
          m5 = set_left m4 p l;
          m6 = set_right m5 p r;
          m7 = set_parent m6 p (Some node);
          m8 = set_parent_opt m7 l (Some p);
          m9 = set_parent_opt m8 r (Some p)
      in (h4, m9))"

partial_function (option) decrease_loop ::
  "'k::linorder state \<Rightarrow> addr \<Rightarrow> addr option \<Rightarrow> addr option \<Rightarrow> addr option \<Rightarrow> 'k state option" where
  "decrease_loop s node par l r =
     (case par of
        None \<Rightarrow> Some s
      | Some p \<Rightarrow>
          if key (snd s p) > key (snd s node) then
            (let s' = decrease_step s node p l r in
             decrease_loop s' node (parent (snd s' node)) (left (snd s' node)) (right (snd s' node)))
          else Some s)"

definition heap_decrease_key :: "'k::linorder state \<Rightarrow> addr \<Rightarrow> 'k state option" where
  "heap_decrease_key s node =
     (let h = fst s; m = snd s in
      case parent (m node) of
        None \<Rightarrow> Some s
      | Some p \<Rightarrow>
          (let h1 = (if key (m p) > key (m node)
                     then (if last_node h = Some node then h\<lparr>last_node := Some p\<rparr> else h)
                     else h)
           in decrease_loop (h1, m) node (Some p) (left (m node)) (right (m node))))"

definition heap_insert :: "'k::linorder state \<Rightarrow> addr \<Rightarrow> 'k state option" where
  "heap_insert s node =
     (let h = fst s; m = heap_init_node (snd s) node in
      if count h = 0 then
        Some (h\<lparr>root_node := Some node, last_node := Some node, count := u32 (count h + 1)\<rparr>, m)
      else
        (case heap_find_parent_insert_node (h, m) of
           None \<Rightarrow> None
         | Some None \<Rightarrow> None
         | Some (Some p) \<Rightarrow>
             (let m1 = (if left (m p) \<noteq> None then set_right m p (Some node)
                        else set_left m p (Some node));
                  m2 = set_parent m1 node (Some p);
                  h2 = h\<lparr>count := u32 (count h + 1)\<rparr>;
                  h3 = h2\<lparr>last_node := Some node\<rparr>
              in heap_decrease_key (h3, m2) node)))"

subsection \<open>Rotations and sift-down (heap.c)\<close>

definition heap_swap_left :: "'k state \<Rightarrow> addr \<Rightarrow> 'k state option" where
  "heap_swap_left s node =
     (let h = fst s; m = snd s;
          par = parent (m node); lft = left (m node); rgt = right (m node) in
      case lft of
        None \<Rightarrow> None
      | Some l \<Rightarrow>
          (let m1 = set_parent m node (Some l);
               m2 = set_left m1 node (left (m1 l));
               m3 = set_parent_opt m2 (left (m2 node)) (Some node);
               m4 = set_right m3 node (right (m3 l));
               m5 = set_parent_opt m4 (right (m4 node)) (Some node);
               m6 = set_parent m5 l par;
               s7 = (case par of
                       Some p \<Rightarrow>
                         if left (m6 p) = Some node then (h, set_left m6 p (Some l))
                         else (h, set_right m6 p (Some l))
                     | None \<Rightarrow> (h\<lparr>root_node := Some l\<rparr>, m6));
               h7 = fst s7; m7 = snd s7;
               m8 = set_left m7 l (Some node);
               m9 = set_right m8 l rgt;
               m10 = set_parent_opt m9 rgt (Some l);
               h10 = (if last_node h7 = Some l then h7\<lparr>last_node := Some node\<rparr> else h7)
           in Some (h10, m10)))"

definition heap_swap_right :: "'k state \<Rightarrow> addr \<Rightarrow> 'k state option" where
  "heap_swap_right s node =
     (let h = fst s; m = snd s;
          par = parent (m node); lft = left (m node); rgt = right (m node) in
      case rgt of
        None \<Rightarrow> None
      | Some r \<Rightarrow>
          (let m1 = set_parent m node (Some r);
               m2 = set_left m1 node (left (m1 r));
               m3 = set_parent_opt m2 (left (m2 node)) (Some node);
               m4 = set_right m3 node (right (m3 r));
               m5 = set_parent_opt m4 (right (m4 node)) (Some node);
               m6 = set_parent m5 r par;
               s7 = (case par of
                       Some p \<Rightarrow>
                         if left (m6 p) = Some node then (h, set_left m6 p (Some r))
                         else (h, set_right m6 p (Some r))
                     | None \<Rightarrow> (h\<lparr>root_node := Some r\<rparr>, m6));
               h7 = fst s7; m7 = snd s7;
               m8 = set_right m7 r (Some node);
               m9 = set_left m8 r lft;
               m10 = set_parent_opt m9 lft (Some r);
               h10 = (if last_node h7 = Some r then h7\<lparr>last_node := Some node\<rparr> else h7)
           in Some (h10, m10)))"

text \<open>
  \<open>heap_increse_key\<close> (the source's spelling). \<open>guard_gt m node c\<close> is the source's test
  \<open>c && (node->key > c->key)\<close>.
\<close>

definition guard_gt :: "'k::linorder mem \<Rightarrow> addr \<Rightarrow> addr option \<Rightarrow> bool" where
  "guard_gt m node c = (case c of None \<Rightarrow> False | Some x \<Rightarrow> key (m node) > key (m x))"

partial_function (option) heap_increse_key :: "'k::linorder state \<Rightarrow> addr \<Rightarrow> 'k state option" where
  "heap_increse_key s node =
     (let m = snd s; lft = left (m node); rgt = right (m node) in
      if guard_gt m node lft then
        (case (if guard_gt m node rgt
               then (if key (m (the lft)) < key (m (the rgt))
                     then heap_swap_left s node
                     else heap_swap_right s node)
               else heap_swap_left s node) of
           None \<Rightarrow> None
         | Some s' \<Rightarrow> heap_increse_key s' node)
      else if guard_gt m node rgt then
        (case heap_swap_right s node of
           None \<Rightarrow> None
         | Some s' \<Rightarrow> heap_increse_key s' node)
      else Some s)"

subsection \<open>\<open>heap_extract_min\<close> (heap.c)\<close>

text \<open>
  The result is the returned pointer (\<open>None\<close> for \<open>NULL\<close>) and the state after the call.
\<close>

definition detach_last :: "'k state \<Rightarrow> addr \<Rightarrow> 'k state option" where
  "detach_last s new_min =
     (let h = fst s; m = snd s in
      case parent (m new_min) of
        None \<Rightarrow> None
      | Some p \<Rightarrow>
          if left (m p) = Some new_min then
            (let m1 = set_left m p None;
                 h1 = h\<lparr>last_node := parent (m1 new_min)\<rparr>
             in case heap_find_last_node (h1, m1) of
                  None \<Rightarrow> None
                | Some l \<Rightarrow> Some (h1\<lparr>last_node := l\<rparr>, m1))
          else
            (let m1 = set_right m p None in
             case parent (m1 new_min) of
               None \<Rightarrow> None
             | Some p' \<Rightarrow> Some (h\<lparr>last_node := left (m1 p')\<rparr>, m1)))"

definition heap_extract_min :: "'k::linorder state \<Rightarrow> (addr option \<times> 'k state) option" where
  "heap_extract_min s =
     (let h = fst s; m = snd s in
      case root_node h of
        None \<Rightarrow> Some (None, s)
      | Some min_node \<Rightarrow>
          (let h0 = h\<lparr>count := u32 (count h + 4294967295)\<rparr> in
           case
             (if count h0 = 0 then
                Some (h0\<lparr>root_node := None, last_node := None\<rparr>, m)
              else if count h0 = 1 then
                (case last_node h0 of
                   None \<Rightarrow> None
                 | Some new_min \<Rightarrow>
                     Some (h0\<lparr>root_node := Some new_min, last_node := Some new_min\<rparr>,
                           set_parent m new_min None))
              else
                (case last_node h0 of
                   None \<Rightarrow> None
                 | Some new_min \<Rightarrow>
                     (case detach_last (h0, m) new_min of
                        None \<Rightarrow> None
                      | Some s1 \<Rightarrow>
                          (let h1 = fst s1; m1 = snd s1;
                               m2 = set_left m1 new_min (left (m1 min_node));
                               m3 = set_parent_opt m2 (left (m2 new_min)) (Some new_min);
                               m4 = set_right m3 new_min (right (m3 min_node));
                               m5 = set_parent_opt m4 (right (m4 new_min)) (Some new_min);
                               m6 = set_parent m5 new_min None;
                               h6 = h1\<lparr>root_node := Some new_min\<rparr>
                           in heap_increse_key (h6, m6) new_min))))
           of
             None \<Rightarrow> None
           | Some s' \<Rightarrow> Some (Some min_node, (fst s', heap_init_node (snd s') min_node))))"

section \<open>Abstraction: the level-order numbering of the nodes\<close>

definition swap_mem :: "'k mem \<Rightarrow> addr \<Rightarrow> addr \<Rightarrow> 'k mem" where
  "swap_mem m c p = (\<lambda>a.
     if a = c then
       \<lparr>key = key (m c), parent = parent (m p),
        left = (if left (m p) = Some c then Some p else left (m p)),
        right = (if left (m p) = Some c then right (m p) else Some p)\<rparr>
     else if a = p then
       \<lparr>key = key (m p), parent = Some c, left = left (m c), right = right (m c)\<rparr>
     else if parent (m p) = Some a then
       (if left (m a) = Some p then (m a)\<lparr>left := Some c\<rparr> else (m a)\<lparr>right := Some c\<rparr>)
     else if left (m p) = Some a \<or> right (m p) = Some a then (m a)\<lparr>parent := Some c\<rparr>
     else if left (m c) = Some a \<or> right (m c) = Some a then (m a)\<lparr>parent := Some p\<rparr>
     else m a)"

definition local_ok :: "'k mem \<Rightarrow> addr \<Rightarrow> addr \<Rightarrow> bool" where
  "local_ok m c p \<longleftrightarrow> c \<noteq> p \<and> parent (m c) = Some p \<and>
     (left (m p) = Some c \<or> right (m p) = Some c) \<and>
     parent (m p) \<noteq> Some c \<and> parent (m p) \<noteq> Some p \<and>
     left (m p) \<noteq> Some p \<and> right (m p) \<noteq> Some p \<and>
     (left (m p) \<noteq> None \<longrightarrow> left (m p) \<noteq> parent (m p) \<and> left (m p) \<noteq> right (m p)) \<and> 
     (right (m p) \<noteq> None \<longrightarrow> right (m p) \<noteq> parent (m p)) \<and>
     left (m c) \<noteq> Some c \<and> left (m c) \<noteq> Some p \<and> right (m c) \<noteq> Some c \<and> right (m c) \<noteq> Some p \<and>
     (left (m c) \<noteq> None \<longrightarrow> left (m c) \<noteq> parent (m p) \<and> left (m c) \<noteq> left (m p) \<and> left (m c) \<noteq> right (m p) \<and> left (m c) \<noteq> right (m c)) \<and>
     (right (m c) \<noteq> None \<longrightarrow> right (m c) \<noteq> parent (m p) \<and> right (m c) \<noteq> left (m p) \<and> right (m c) \<noteq> right (m p))"

definition pos :: "(nat \<Rightarrow> addr) \<Rightarrow> nat \<Rightarrow> nat \<Rightarrow> addr option" where
  "pos f n p = (if 1 \<le> p \<and> p \<le> n then Some (f p) else None)"

definition ctree :: "'k mem \<Rightarrow> (nat \<Rightarrow> addr) \<Rightarrow> nat \<Rightarrow> bool" where
  "ctree m f n \<longleftrightarrow> inj_on f {1..n} \<and>
     (\<forall>p\<in>{1..n}. parent (m (f p)) = pos f n (p div 2) \<and>
                  left (m (f p)) = pos f n (2 * p) \<and>
                  right (m (f p)) = pos f n (2 * p + 1))"

definition ordered :: "(addr \<Rightarrow> 'k::linorder) \<Rightarrow> (nat \<Rightarrow> addr) \<Rightarrow> nat \<Rightarrow> bool" where
  "ordered k f n \<longleftrightarrow> (\<forall>p. 2 \<le> p \<and> p \<le> n \<longrightarrow> k (f (p div 2)) \<le> k (f p))"

definition up_ok :: "(addr \<Rightarrow> 'k::linorder) \<Rightarrow> (nat \<Rightarrow> addr) \<Rightarrow> nat \<Rightarrow> nat \<Rightarrow> bool" where
  "up_ok k f n c \<longleftrightarrow>
     (\<forall>p. 2 \<le> p \<and> p \<le> n \<and> p \<noteq> c \<longrightarrow> k (f (p div 2)) \<le> k (f p)) \<and>
     (\<forall>p. 2 \<le> p \<and> p \<le> n \<and> p div 2 = c \<and> 2 \<le> c \<longrightarrow> k (f (c div 2)) \<le> k (f p))"

definition down_ok :: "(addr \<Rightarrow> 'k::linorder) \<Rightarrow> (nat \<Rightarrow> addr) \<Rightarrow> nat \<Rightarrow> nat \<Rightarrow> bool" where
  "down_ok k f n c \<longleftrightarrow>
     (\<forall>p. 2 \<le> p \<and> p \<le> n \<and> p div 2 \<noteq> c \<longrightarrow> k (f (p div 2)) \<le> k (f p)) \<and>
     (\<forall>p. 2 \<le> p \<and> p \<le> n \<and> p div 2 = c \<and> 2 \<le> c \<longrightarrow> k (f (c div 2)) \<le> k (f p))"

section \<open>Pointer rotations exchange two neighbouring positions\<close>

lemma get_set [simp]:
  "parent (set_parent m a v b) = (if b = a then v else parent (m b))"
  "left (set_parent m a v b) = left (m b)"
  "right (set_parent m a v b) = right (m b)"
  "key (set_parent m a v b) = key (m b)"
  "parent (set_left m a v b) = parent (m b)"
  "left (set_left m a v b) = (if b = a then v else left (m b))"
  "right (set_left m a v b) = right (m b)"
  "key (set_left m a v b) = key (m b)"
  "parent (set_right m a v b) = parent (m b)"
  "left (set_right m a v b) = left (m b)"
  "right (set_right m a v b) = (if b = a then v else right (m b))"
  "key (set_right m a v b) = key (m b)"
  "parent (set_parent_opt m x v b) = (if x = Some b then v else parent (m b))"
  "left (set_parent_opt m x v b) = left (m b)"
  "right (set_parent_opt m x v b) = right (m b)"
  "key (set_parent_opt m x v b) = key (m b)"
  by (simp_all add: set_parent_def set_left_def set_right_def set_parent_opt_def split: option.splits)

lemma node_eqI:
  "key x = key y \<Longrightarrow> parent x = parent y \<Longrightarrow> left x = left y \<Longrightarrow> right x = right y \<Longrightarrow> x = (y::'k heap_node)"
  by simp

lemma decrease_step_mem:
  fixes m :: "'k::linorder mem"
  assumes "local_ok m c p"
  shows "snd (decrease_step (h, m) c p (left (m c)) (right (m c))) = swap_mem m c p"
proof (rule ext)
  fix a
  show "snd (decrease_step (h, m) c p (left (m c)) (right (m c))) a = swap_mem m c p a"
  proof (cases "parent (m p)")
    case None
    then show ?thesis
      using assms
      by (intro node_eqI)
         (auto simp add: local_ok_def decrease_step_def hook_under_grandparent_def swap_mem_def Let_def)
  next
    case (Some g)
    then show ?thesis
      using assms
      by (intro node_eqI)
         (auto simp add: local_ok_def decrease_step_def hook_under_grandparent_def swap_mem_def Let_def)
  qed
qed

lemma decrease_step_heap:
  assumes "local_ok m c p"
  shows "fst (decrease_step (h, m) c p l r) =
     (if parent (m p) = None then h\<lparr>root_node := Some c\<rparr> else h)"
  using assms
  by (cases "parent (m p)")
     (auto simp add: local_ok_def decrease_step_def hook_under_grandparent_def Let_def)

lemma heap_swap_left_mem:
  fixes m :: "'k::linorder mem"
  assumes "local_ok m c p" "left (m p) = Some c"
  shows "heap_swap_left (h, m) p =
     Some ((if parent (m p) = None then h\<lparr>root_node := Some c\<rparr> else h)
             \<lparr>last_node := (if last_node h = Some c then Some p else last_node h)\<rparr>, swap_mem m c p)"
proof -
  have "snd (the (heap_swap_left (h, m) p)) a = swap_mem m c p a" for a
  proof (cases "parent (m p)")
    case None
    then show ?thesis
      using assms
      by (intro node_eqI)
         (auto simp add: local_ok_def heap_swap_left_def swap_mem_def Let_def)
  next
    case (Some g)
    then show ?thesis
      using assms
      by (intro node_eqI)
         (auto simp add: local_ok_def heap_swap_left_def swap_mem_def Let_def)
  qed
  then have "snd (the (heap_swap_left (h, m) p)) = swap_mem m c p" by (rule ext)
  moreover have "fst (the (heap_swap_left (h, m) p)) = (if parent (m p) = None then h\<lparr>root_node := Some c\<rparr> else h)
             \<lparr>last_node := (if last_node h = Some c then Some p else last_node h)\<rparr>"
    using assms by (auto simp add: heap_swap_left_def Let_def split: option.splits)
  moreover have "heap_swap_left (h, m) p \<noteq> None"
    using assms by (auto simp add: heap_swap_left_def Let_def split: option.splits)
  ultimately show ?thesis by (metis option.collapse prod.collapse)
qed

lemma heap_swap_right_mem:
  fixes m :: "'k::linorder mem"
  assumes "local_ok m c p" "right (m p) = Some c"
  shows "heap_swap_right (h, m) p =
     Some ((if parent (m p) = None then h\<lparr>root_node := Some c\<rparr> else h)
             \<lparr>last_node := (if last_node h = Some c then Some p else last_node h)\<rparr>, swap_mem m c p)"
proof -
  have "snd (the (heap_swap_right (h, m) p)) a = swap_mem m c p a" for a
  proof (cases "parent (m p)")
    case None
    then show ?thesis
      using assms
      by (intro node_eqI)
         (auto simp add: local_ok_def heap_swap_right_def swap_mem_def Let_def)
  next
    case (Some g)
    then show ?thesis
      using assms
      by (intro node_eqI)
         (auto simp add: local_ok_def heap_swap_right_def swap_mem_def Let_def)
  qed
  then have "snd (the (heap_swap_right (h, m) p)) = swap_mem m c p" by (rule ext)
  moreover have "fst (the (heap_swap_right (h, m) p)) = (if parent (m p) = None then h\<lparr>root_node := Some c\<rparr> else h)
             \<lparr>last_node := (if last_node h = Some c then Some p else last_node h)\<rparr>"
    using assms by (auto simp add: heap_swap_right_def Let_def split: option.splits)
  moreover have "heap_swap_right (h, m) p \<noteq> None"
    using assms by (auto simp add: heap_swap_right_def Let_def split: option.splits)
  ultimately show ?thesis by (metis option.collapse prod.collapse)
qed

lemma ctree_fields:
  assumes "ctree m f n" "1 \<le> p" "p \<le> n"
  shows "parent (m (f p)) = pos f n (p div 2)" "left (m (f p)) = pos f n (2 * p)"
        "right (m (f p)) = pos f n (2 * p + 1)"
  using assms by (auto simp: ctree_def)

lemma ctree_eq_iff:
  assumes "ctree m f n" "1 \<le> p" "p \<le> n" "1 \<le> q" "q \<le> n"
  shows "f p = f q \<longleftrightarrow> p = q"
proof -
  have "inj_on f {1..n}" using assms(1) by (simp add: ctree_def)
  then show ?thesis using assms(2-) by (simp add: inj_on_eq_iff)
qed

lemma pos_None_iff: "pos f n p = None \<longleftrightarrow> p = 0 \<or> n < p"
  by (auto simp: pos_def)

lemma pos_eq_Some_iff:
  assumes "ctree m f n" "1 \<le> q" "q \<le> n"
  shows "pos f n p = Some (f q) \<longleftrightarrow> p = q"
  using assms ctree_eq_iff[OF assms(1), of p q] by (auto simp: pos_def)

lemma pos_eq_pos_iff:
  assumes "ctree m f n"
  shows "pos f n p = pos f n q \<longleftrightarrow> (p = q \<or> (p = 0 \<or> n < p) \<and> (q = 0 \<or> n < q))"
  using ctree_eq_iff[OF assms, of p q] by (auto simp: pos_def)

lemma pos_neq_Some:
  assumes "ctree m f n" "1 \<le> q" "q \<le> n" "p \<noteq> q"
  shows "pos f n p \<noteq> Some (f q)"
  using assms by (simp add: pos_eq_Some_iff)

lemma pos_neq_pos:
  assumes "ctree m f n" "p \<noteq> q" "pos f n p \<noteq> None"
  shows "pos f n p \<noteq> pos f n q"
  using assms by (simp add: pos_eq_pos_iff pos_None_iff)

lemma ctree_local_ok:
  assumes ct: "ctree m f n" and c: "2 \<le> c" "c \<le> n"
  shows "local_ok m (f c) (f (c div 2))"
proof -
  define d where "d = c div 2"
  define g where "g = d div 2"
  have d: "1 \<le> d" "d \<le> n" "1 \<le> c" using c by (auto simp: d_def)
  have cd: "2 * d \<le> c" "c \<le> 2 * d + 1" unfolding d_def by linarith+
  have gd: "2 * g \<le> d" "d \<le> 2 * g + 1" unfolding g_def by linarith+
  have ne: "g \<noteq> c" "g \<noteq> d" "2 * d \<noteq> d" "2 * d + 1 \<noteq> d" "2 * d \<noteq> g" "2 * d \<noteq> 2 * d + 1"
    "2 * d + 1 \<noteq> g" "2 * c \<noteq> c" "2 * c \<noteq> d" "2 * c + 1 \<noteq> c" "2 * c + 1 \<noteq> d" 
    "2 * c \<noteq> g" "2 * c \<noteq> 2 * d" "2 * c \<noteq> 2 * d + 1" "2 * c \<noteq> 2 * c + 1" "2 * c + 1 \<noteq> g"
    "2 * c + 1 \<noteq> 2 * d" "2 * c + 1 \<noteq> 2 * d + 1" "c \<noteq> d"
    using c d cd gd by linarith+
  have lr: "pos f n (2 * d) = Some (f c) \<or> pos f n (2 * d + 1) = Some (f c)"
  proof -
    have "2 * d = c \<or> 2 * d + 1 = c" unfolding d_def by linarith
    then show ?thesis using c by (auto simp: pos_def)
  qed
  have pc: "pos f n d = Some (f d)" using d by (simp add: pos_def)
  note a = pos_neq_Some[OF ct d(1,2)] pos_neq_Some[OF ct d(3) c(2)] pos_neq_pos[OF ct]
  have fcd: "f c \<noteq> f d" using c d ne by (simp add: ctree_eq_iff[OF ct])
  show ?thesis
    unfolding local_ok_def d_def[symmetric] ctree_fields[OF ct d(1,2)] ctree_fields[OF ct d(3) c(2)] g_def[symmetric]
    using fcd lr pc ne
    by (simp add: a)
qed

lemma inj_on_swap:
  assumes "inj_on f {1..n::nat}" "1 \<le> c" "c \<le> n" "1 \<le> d" "d \<le> n"
  shows "inj_on (f(c := f d, d := f c)) {1..n}"
proof (rule inj_onI)
  fix x y assume xy: "x \<in> {1..n}" "y \<in> {1..n}" "(f(c := f d, d := f c)) x = (f(c := f d, d := f c)) y"
  have e: "f a = f b \<longleftrightarrow> a = b" if "a \<in> {1..n}" "b \<in> {1..n}" for a b
    using assms(1) that by (simp add: inj_on_eq_iff)
  have cd: "c \<in> {1..n}" "d \<in> {1..n}" using assms by auto
  show "x = y" using xy(3) e[OF xy(1,2)] e[OF cd(1) xy(1)] e[OF cd(1) xy(2)] e[OF cd(2) xy(1)] e[OF cd(2) xy(2)] e[OF cd]
    by (auto split: if_splits)
qed

lemma pos_swap:
  assumes "1 \<le> c" "c \<le> n" "1 \<le> d" "d \<le> n"
  shows "pos (f(c := f d, d := f c)) n x =
     (if x = c then Some (f d) else if x = d then Some (f c) else pos f n x)"
  using assms by (auto simp: pos_def)

lemma pos_in: "1 \<le> p \<Longrightarrow> p \<le> n \<Longrightarrow> pos f n p = Some (f p)"
  by (simp add: pos_def)

lemma swap_mem_child:
  assumes ct: "ctree m f n" and c: "2 \<le> c" "c \<le> n"
  shows "swap_mem m (f c) (f (c div 2)) (f c) =
    \<lparr>key = key (m (f c)), parent = pos f n (c div 2 div 2),
     left = (if 2 * (c div 2) = c then Some (f (c div 2)) else pos f n (2 * (c div 2))),
     right = (if 2 * (c div 2) = c then pos f n (2 * (c div 2) + 1) else Some (f (c div 2)))\<rparr>"
proof -
  have d: "1 \<le> c div 2" "c div 2 \<le> n" "1 \<le> c" using c by auto
  show ?thesis
    by (simp add: swap_mem_def ctree_fields[OF ct d(1,2)] pos_eq_Some_iff[OF ct d(3) c(2)])
qed

lemma swap_mem_parent:
  assumes ct: "ctree m f n" and c: "2 \<le> c" "c \<le> n"
  shows "swap_mem m (f c) (f (c div 2)) (f (c div 2)) =
    \<lparr>key = key (m (f (c div 2))), parent = Some (f c),
     left = pos f n (2 * c), right = pos f n (2 * c + 1)\<rparr>"
proof -
  have d: "1 \<le> c div 2" "c div 2 \<le> n" "1 \<le> c" "c div 2 \<noteq> c" using c by auto
  show ?thesis
    using d(4) by (simp add: swap_mem_def ctree_fields[OF ct d(3) c(2)] ctree_eq_iff[OF ct d(1,2) d(3) c(2)])
qed

lemma swap_mem_other:
  assumes ct: "ctree m f n" and c: "2 \<le> c" "c \<le> n" and q: "1 \<le> q" "q \<le> n" "q \<noteq> c" "q \<noteq> c div 2"
  shows "swap_mem m (f c) (f (c div 2)) (f q) =
    (if q = c div 2 div 2 then
       (if 2 * q = c div 2 then (m (f q))\<lparr>left := Some (f c)\<rparr> else (m (f q))\<lparr>right := Some (f c)\<rparr>)
     else if q = 2 * (c div 2) \<or> q = 2 * (c div 2) + 1 then (m (f q))\<lparr>parent := Some (f c)\<rparr>
     else if q = 2 * c \<or> q = 2 * c + 1 then (m (f q))\<lparr>parent := Some (f (c div 2))\<rparr>
     else m (f q))"
proof -
  have d: "1 \<le> c div 2" "c div 2 \<le> n" "1 \<le> c" using c by auto
  have e: "(c div 2 div 2 = q) = (q = c div 2 div 2)" "(2 * (c div 2) = q) = (q = 2 * (c div 2))"
      "(Suc (2 * (c div 2)) = q) = (q = Suc (2 * (c div 2)))" "(2 * c = q) = (q = 2 * c)"
      "(Suc (2 * c) = q) = (q = Suc (2 * c))"
    by auto
  have l: "(left (m (f q)) = Some (f (c div 2))) = (2 * q = c div 2)"
    by (simp add: ctree_fields[OF ct q(1,2)] pos_eq_Some_iff[OF ct d(1,2)])
  have "swap_mem m (f c) (f (c div 2)) (f q) =
    (if q = c div 2 div 2 then
       (if left (m (f q)) = Some (f (c div 2)) then (m (f q))\<lparr>left := Some (f c)\<rparr> else (m (f q))\<lparr>right := Some (f c)\<rparr>)
     else if q = 2 * (c div 2) \<or> q = 2 * (c div 2) + 1 then (m (f q))\<lparr>parent := Some (f c)\<rparr>
     else if q = 2 * c \<or> q = 2 * c + 1 then (m (f q))\<lparr>parent := Some (f (c div 2))\<rparr>
     else m (f q))"
    using q(3,4)
    by (simp add: swap_mem_def ctree_fields[OF ct d(1,2)] ctree_fields[OF ct d(3) c(2)]
        ctree_eq_iff[OF ct q(1,2) d(3) c(2)] ctree_eq_iff[OF ct q(1,2) d(1,2)]
        pos_eq_Some_iff[OF ct q(1,2)] e)
  then show ?thesis unfolding l .
qed

lemma half_neq: "q \<noteq> 2 * x \<Longrightarrow> q \<noteq> 2 * x + 1 \<Longrightarrow> q div 2 \<noteq> (x::nat)"
  by linarith

lemma double_neq: "q \<noteq> x div 2 \<Longrightarrow> 2 * q \<noteq> (x::nat) \<and> 2 * q + 1 \<noteq> x"
  by linarith

lemma ctree_swap_mem:
  assumes ct: "ctree m f n" and c: "2 \<le> c" "c \<le> n"
  shows "ctree (swap_mem m (f c) (f (c div 2))) (f(c := f (c div 2), c div 2 := f c)) n"
proof -
  define d where "d = c div 2"
  define f' where "f' = f(c := f d, d := f c)"
  define M where "M = swap_mem m (f c) (f d)"
  have d: "1 \<le> d" "d \<le> n" "1 \<le> c" "d \<noteq> c" using c by (auto simp: d_def)
  have cd: "2 * d \<le> c" "c \<le> 2 * d + 1" unfolding d_def by linarith+
  have ps: "pos f' n x = (if x = c then Some (f d) else if x = d then Some (f c) else pos f n x)" for x
    unfolding f'_def by (rule pos_swap[OF d(3) c(2) d(1,2)])
  have inj: "inj_on f' {1..n}"
    unfolding f'_def using ct c d by (intro inj_on_swap) (auto simp: ctree_def)
  note A = swap_mem_child[OF ct c, folded d_def M_def]
  note B = swap_mem_parent[OF ct c, folded d_def M_def]
  note C = swap_mem_other[OF ct c, folded d_def M_def]
  have main: "parent (M (f' q)) = pos f' n (q div 2) \<and> left (M (f' q)) = pos f' n (2 * q)
      \<and> right (M (f' q)) = pos f' n (2 * q + 1)"
    if q: "1 \<le> q" "q \<le> n" for q
  proof -
    consider (child) "q = d" | (par) "q = c" | (gp) "q \<noteq> c" "q \<noteq> d" "d div 2 = q"
      | (sib) "q \<noteq> c" "q \<noteq> d" "q \<noteq> d div 2" "q = 2 * d \<or> q = 2 * d + 1"
      | (gc) "q \<noteq> c" "q \<noteq> d" "q \<noteq> d div 2" "\<not> (q = 2 * d \<or> q = 2 * d + 1)" "q = 2 * c \<or> q = 2 * c + 1"
      | (other) "q \<noteq> c" "q \<noteq> d" "q \<noteq> d div 2" "\<not> (q = 2 * d \<or> q = 2 * d + 1)" "\<not> (q = 2 * c \<or> q = 2 * c + 1)"
      by blast
    then show ?thesis
    proof cases
      case child
      have a: "d div 2 \<noteq> c" "d div 2 \<noteq> d" "2 * d \<noteq> d" "2 * d + 1 \<noteq> d" "2 * d = c \<or> 2 * d + 1 = c"
        using c unfolding d_def by linarith+
      have "f' q = f c" using child d by (simp add: f'_def)
      then show ?thesis using a child by (auto simp: A ps)
    next
      case par
      have a: "c div 2 = d" "2 * c \<noteq> c" "2 * c \<noteq> d" "2 * c + 1 \<noteq> c" "2 * c + 1 \<noteq> d"
        using c unfolding d_def by linarith+
      have "f' q = f d" using par d by (simp add: f'_def)
      then show ?thesis using a par by (simp add: B ps)
    next
      case gp
      have a: "q div 2 \<noteq> c" "q div 2 \<noteq> d" "2 * q = d \<or> 2 * q + 1 = d" "2 * q \<noteq> c" "2 * q + 1 \<noteq> c"
        using c q gp(3) unfolding d_def by linarith+
      have "f' q = f q" using gp by (simp add: f'_def)
      then show ?thesis using a gp by (auto simp: C[OF q gp(1,2)] ps ctree_fields[OF ct q])
    next
      case sib
      have "q div 2 = d" "2 * d \<le> q" using sib(4) by auto
      then have a: "q div 2 = d" "2 * q \<noteq> c" "2 * q \<noteq> d" "2 * q + 1 \<noteq> c" "2 * q + 1 \<noteq> d"
        using cd d(1) by linarith+
      have "f' q = f q" using sib by (simp add: f'_def)
      then show ?thesis using a sib by (simp add: C[OF q sib(1,2)] ps ctree_fields[OF ct q])
    next
      case gc
      have "q div 2 = c" "2 * c \<le> q" using gc(5) by auto
      then have a: "q div 2 = c" "2 * q \<noteq> c" "2 * q \<noteq> d" "2 * q + 1 \<noteq> c" "2 * q + 1 \<noteq> d"
        using cd d(1) by linarith+
      have "f' q = f q" using gc by (simp add: f'_def)
      then show ?thesis using a gc by (simp add: C[OF q gc(1,2)] ps ctree_fields[OF ct q])
    next
      case other
      have a: "q div 2 \<noteq> c" "q div 2 \<noteq> d" "2 * q \<noteq> c" "2 * q \<noteq> d" "2 * q + 1 \<noteq> c" "2 * q + 1 \<noteq> d"
        using other half_neq[of q c] half_neq[of q d] double_neq[of q c] double_neq[of q d]
        unfolding d_def[symmetric] by auto
      have "f' q = f q" using other by (simp add: f'_def)
      then show ?thesis using a other by (simp add: C[OF q other(1,2)] ps ctree_fields[OF ct q])
    qed
  qed
  show ?thesis
    unfolding ctree_def d_def[symmetric] f'_def[symmetric] M_def[symmetric] using inj main by auto
qed

lemma swap_mem_key: "key (swap_mem m c p a) = key (m a)"
  by (simp add: swap_mem_def)

lemma swap_mem_frame:
  assumes ct: "ctree m f n" and c: "2 \<le> c" "c \<le> n" and a: "a \<notin> f ` {1..n}"
  shows "swap_mem m (f c) (f (c div 2)) a = m a"
proof -
  have d: "1 \<le> c div 2" "c div 2 \<le> n" "1 \<le> c" using c by auto
  have n: "pos f n x \<noteq> Some a" for x using a by (auto simp: pos_def)
  have "a \<noteq> f c" "a \<noteq> f (c div 2)" using a c d by auto
  then show ?thesis
    by (simp add: swap_mem_def ctree_fields[OF ct d(1,2)] ctree_fields[OF ct d(3) c(2)] n)
qed

lemma up_ok_done:
  assumes "up_ok k f n c" "c < 2 \<or> c > n \<or> k (f (c div 2)) \<le> k (f c)"
  shows "ordered k f n"
  unfolding ordered_def
proof (intro allI impI)
  fix p assume p: "2 \<le> p \<and> p \<le> n"
  show "k (f (p div 2)) \<le> k (f p)"
  proof (cases "p = c")
    case True
    then show ?thesis using assms(2) p by auto
  next
    case False
    then show ?thesis using assms(1) p unfolding up_ok_def by blast
  qed
qed

lemma ordered_up_ok: "ordered k f n \<Longrightarrow> 1 \<le> c \<Longrightarrow> c \<le> n \<Longrightarrow> up_ok k f n c"
  unfolding up_ok_def ordered_def
proof (intro conjI allI impI)
  fix p assume o: "\<forall>p. 2 \<le> p \<and> p \<le> n \<longrightarrow> k (f (p div 2)) \<le> k (f p)" and c: "1 \<le> c" "c \<le> n"
  {
    assume "2 \<le> p \<and> p \<le> n \<and> p \<noteq> c"
    then show "k (f (p div 2)) \<le> k (f p)" using o by blast
  next
    assume p: "2 \<le> p \<and> p \<le> n \<and> p div 2 = c \<and> 2 \<le> c"
    then have "k (f (c div 2)) \<le> k (f c)" "k (f c) \<le> k (f p)" using o c by auto
    then show "k (f (c div 2)) \<le> k (f p)" by (rule order_trans)
  }
qed

lemma up_ok_swap:
  assumes u: "up_ok k f n c" and c: "2 \<le> c" "c \<le> n" and lt: "k (f c) < k (f (c div 2))"
  shows "up_ok k (f(c := f (c div 2), c div 2 := f c)) n (c div 2)"
proof -
  define d where "d = c div 2"
  define f' where "f' = f(c := f d, d := f c)"
  have d: "1 \<le> d" "d \<le> n" "d \<noteq> c" "d < c" using c by (auto simp: d_def)
  have cd: "2 * d \<le> c" "c \<le> 2 * d + 1" unfolding d_def by linarith+
  have f': "f' c = f d" "f' d = f c" "\<And>x. x \<noteq> c \<Longrightarrow> x \<noteq> d \<Longrightarrow> f' x = f x"
    using d by (auto simp: f'_def)
  have u1: "k (f (p div 2)) \<le> k (f p)" if "2 \<le> p" "p \<le> n" "p \<noteq> c" for p
    using u that unfolding up_ok_def by blast
  have u2: "k (f d) \<le> k (f p)" if "2 \<le> p" "p \<le> n" "p div 2 = c" for p
    using u that c unfolding up_ok_def d_def by blast
  have "k (f' (p div 2)) \<le> k (f' p)" if p: "2 \<le> p" "p \<le> n" "p \<noteq> d" for p
  proof -
    consider "p = c" | "p \<noteq> c" "p div 2 = d" | "p div 2 = c" | "p \<noteq> c" "p div 2 \<noteq> d" "p div 2 \<noteq> c"
      by blast
    then show ?thesis
    proof cases
      case 1
      then show ?thesis using lt f' by (simp add: d_def[symmetric])
    next
      case 2
      then have "f' p = f p" using p f'(3) by blast
      moreover have "k (f d) \<le> k (f p)" using u1[OF p(1,2) 2(1)] 2(2) by simp
      ultimately show ?thesis using lt 2 f' by (simp add: d_def[symmetric])
    next
      case 3
      have "p \<noteq> c" "p \<noteq> d" using 3 d c by linarith+
      then have "f' p = f p" using f'(3) by blast
      then show ?thesis using u2[OF p(1,2) 3] 3 f' by simp
    next
      case 4
      have "p div 2 \<noteq> c" "p div 2 \<noteq> d" using 4 by auto
      then show ?thesis using u1[OF p(1,2) 4(1)] f'(3)[of p] f'(3)[of "p div 2"] 4(1) p(3) by simp
    qed
  qed
  moreover have "k (f' (d div 2)) \<le> k (f' p)" if p: "2 \<le> p" "p \<le> n" "p div 2 = d" "2 \<le> d" for p
  proof -
    have g: "d div 2 \<noteq> c" "d div 2 \<noteq> d" using d p(4) by linarith+
    have a: "k (f (d div 2)) \<le> k (f d)" using u1[of d] d p(4) by simp
    show ?thesis
    proof (cases "p = c")
      case True
      then show ?thesis using a f' g by simp
    next
      case False
      have "p \<noteq> d" using p(3) p(1) by linarith
      then have "f' p = f p" using False f'(3) by blast
      moreover have "k (f d) \<le> k (f p)" using u1[OF p(1,2) False] p(3) by simp
      ultimately show ?thesis using a f'(3)[OF g] by simp
    qed
  qed
  ultimately show ?thesis unfolding up_ok_def d_def[symmetric] f'_def[symmetric] by blast
qed

lemma image_swap:
  assumes "c \<in> A" "d \<in> A"
  shows "(f(c := f d, d := f c)) ` A = f ` A"
proof -
  have "(f(c := f d, d := f c)) x \<in> f ` A" if "x \<in> A" for x
    using that assms by (auto simp: fun_upd_def)
  moreover have "f x \<in> (f(c := f d, d := f c)) ` A" if x: "x \<in> A" for x
  proof -
    consider "x = c" | "x = d" | "x \<noteq> c" "x \<noteq> d" by blast
    then show ?thesis
    proof cases
      case 1
      have "(f(c := f d, d := f c)) d = f x" using 1 by simp
      then show ?thesis using assms(2) by (metis imageI)
    next
      case 2
      have "(f(c := f d, d := f c)) c = f x" using 2 by simp
      then show ?thesis using assms(1) by (metis imageI)
    next
      case 3
      have "(f(c := f d, d := f c)) x = f x" using 3 by simp
      then show ?thesis using x by (metis imageI)
    qed
  qed
  ultimately show ?thesis by blast
qed

lemma decrease_loop_correct:
  fixes m :: "'k::linorder mem"
  assumes "ctree m f n" "1 \<le> c" "c \<le> n" "root_node h = pos f n 1"
  shows "\<exists>m' f'. decrease_loop (h, m) (f c) (pos f n (c div 2)) (pos f n (2 * c)) (pos f n (2 * c + 1))
            = Some (h\<lparr>root_node := pos f' n 1\<rparr>, m')
     \<and> ctree m' f' n \<and> f' ` {1..n} = f ` {1..n}
     \<and> (\<forall>a. key (m' a) = key (m a)) \<and> (\<forall>a. a \<notin> f ` {1..n} \<longrightarrow> m' a = m a)
     \<and> (\<forall>x. c < x \<longrightarrow> f' x = f x)
     \<and> (if 2 \<le> c \<and> key (m (f c)) < key (m (f (c div 2))) then f' c = f (c div 2) else f' = f \<and> m' = m)
     \<and> (up_ok (\<lambda>a. key (m a)) f n c \<longrightarrow> ordered (\<lambda>a. key (m' a)) f' n)"
  using assms
proof (induction c arbitrary: h m f rule: less_induct)
  case (less c)
  note ct = less.prems(1) and c = less.prems(2,3) and root = less.prems(4)
  define d where "d = c div 2"
  have stop: ?case
    if "\<not> (2 \<le> c \<and> key (m (f c)) < key (m (f d)))"
  proof -
    have "decrease_loop (h, m) (f c) (pos f n (c div 2)) (pos f n (2 * c)) (pos f n (2 * c + 1)) = Some (h, m)"
      using that c by (subst decrease_loop.simps) (auto simp: pos_def d_def)
    moreover have "h\<lparr>root_node := pos f n 1\<rparr> = h" using root by simp
    moreover have "up_ok (\<lambda>a. key (m a)) f n c \<longrightarrow> ordered (\<lambda>a. key (m a)) f n"
      using that up_ok_done[of "\<lambda>a. key (m a)" f n c] by (auto simp: d_def not_less)
    ultimately show ?thesis using ct that by (auto simp: d_def intro!: exI[of _ m] exI[of _ f])
  qed
  show ?case
  proof (cases "2 \<le> c \<and> key (m (f c)) < key (m (f d))")
    case False
    then show ?thesis by (rule stop)
  next
    case True
    then have c2: "2 \<le> c" and lt: "key (m (f c)) < key (m (f d))" by auto
    have dr: "1 \<le> d" "d \<le> n" "d < c" "d \<noteq> c" "1 \<le> c" using c2 c by (auto simp: d_def)
    define f1 where "f1 = f(c := f d, d := f c)"
    define M where "M = swap_mem m (f c) (f d)"
    define h1 where "h1 = (if parent (m (f d)) = None then h\<lparr>root_node := Some (f c)\<rparr> else h)"
    have lo: "local_ok m (f c) (f d)" unfolding d_def by (rule ctree_local_ok[OF ct c2 c(2)])
    have ct1: "ctree M f1 n" unfolding M_def f1_def d_def by (rule ctree_swap_mem[OF ct c2 c(2)])
    have step: "decrease_step (h, m) (f c) (f d) (pos f n (2 * c)) (pos f n (2 * c + 1)) = (h1, M)"
    proof -
      have "snd (decrease_step (h, m) (f c) (f d) (left (m (f c))) (right (m (f c)))) = M"
        unfolding M_def by (rule decrease_step_mem[OF lo])
      moreover have "fst (decrease_step (h, m) (f c) (f d) (left (m (f c))) (right (m (f c)))) = h1"
        unfolding h1_def by (rule decrease_step_heap[OF lo])
      ultimately have "decrease_step (h, m) (f c) (f d) (left (m (f c))) (right (m (f c))) = (h1, M)"
        by (simp add: prod_eq_iff)
      then show ?thesis by (simp only: ctree_fields[OF ct dr(5) c(2)])
    qed
    have f1d: "f1 d = f c" "f1 c = f d" unfolding f1_def using dr by auto
    have root1: "root_node h1 = pos f1 n 1"
    proof (cases "d = 1")
      case True
      then have "parent (m (f d)) = None" using ctree_fields(1)[OF ct dr(1,2)] by (simp add: pos_def)
      then show ?thesis using True dr f1d by (simp add: h1_def pos_def)
    next
      case False
      then have "1 \<le> d div 2 \<and> d div 2 \<le> n" using dr by linarith
      then have "parent (m (f d)) \<noteq> None" using ctree_fields(1)[OF ct dr(1,2)] by (simp add: pos_def)
      moreover have "f1 1 = f 1" using False dr unfolding f1_def by auto
      ultimately show ?thesis using root by (auto simp add: h1_def pos_def)
    qed
    from less.IH[OF dr(3) ct1 dr(1,2) root1]
    obtain m' f' where IH:
      "decrease_loop (h1, M) (f1 d) (pos f1 n (d div 2)) (pos f1 n (2 * d)) (pos f1 n (2 * d + 1))
            = Some (h1\<lparr>root_node := pos f' n 1\<rparr>, m')"
      "ctree m' f' n" "f' ` {1..n} = f1 ` {1..n}"
      "\<forall>a. key (m' a) = key (M a)" "\<forall>a. a \<notin> f1 ` {1..n} \<longrightarrow> m' a = M a"
      "\<forall>x. d < x \<longrightarrow> f' x = f1 x"
      "up_ok (\<lambda>a. key (M a)) f1 n d \<longrightarrow> ordered (\<lambda>a. key (m' a)) f' n"
      by blast
    have img: "f1 ` {1..n} = f ` {1..n}"
      unfolding f1_def using c dr by (intro image_swap) auto
    have keyM: "key (M a) = key (m a)" for a unfolding M_def by (rule swap_mem_key)
    have frameM: "M a = m a" if "a \<notin> f ` {1..n}" for a
      unfolding M_def d_def by (rule swap_mem_frame[OF ct c2 c(2) that])
    have run: "decrease_loop (h, m) (f c) (pos f n (c div 2)) (pos f n (2 * c)) (pos f n (2 * c + 1))
        = Some (h\<lparr>root_node := pos f' n 1\<rparr>, m')"
    proof -
      have p: "pos f n (c div 2) = Some (f d)" using dr by (simp add: pos_def d_def)
      have h: "h1\<lparr>root_node := v\<rparr> = h\<lparr>root_node := v\<rparr>" for v by (simp add: h1_def)
      have step': "decrease_step (h, m) (f c) (f d) (pos f n (2 * c)) (pos f n (Suc (2 * c))) = (h1, M)"
        using step by simp
      show ?thesis
        apply (subst decrease_loop.simps)
        using lt IH(1) ctree_fields[OF ct1 dr(1,2)]
        by (simp add: p step' f1d h Let_def)
    qed
    have up: "up_ok (\<lambda>a. key (m a)) f n c \<longrightarrow> ordered (\<lambda>a. key (m' a)) f' n"
    proof
      assume "up_ok (\<lambda>a. key (m a)) f n c"
      from up_ok_swap[OF this c2 c(2)] lt
      have "up_ok (\<lambda>a. key (m a)) f1 n d" by (simp add: f1_def d_def)
      then show "ordered (\<lambda>a. key (m' a)) f' n" using IH(7) by (simp add: keyM)
    qed
    have "f' c = f d" using IH(6) dr f1d by auto
    moreover have "\<forall>x. c < x \<longrightarrow> f' x = f x" using IH(6) dr by (auto simp: f1_def)
    ultimately show ?thesis
      using run IH(2,3,4,5) up True img keyM frameM
      by (intro exI[of _ m'] exI[of _ f'] conjI) (simp_all add: d_def[symmetric])
  qed
qed

lemma down_ok_done:
  assumes "down_ok k f n c"
    and "\<And>p. 2 \<le> p \<Longrightarrow> p \<le> n \<Longrightarrow> p div 2 = c \<Longrightarrow> k (f c) \<le> k (f p)"
  shows "ordered k f n"
  unfolding ordered_def
proof (intro allI impI)
  fix p assume p: "2 \<le> p \<and> p \<le> n"
  show "k (f (p div 2)) \<le> k (f p)"
  proof (cases "p div 2 = c")
    case True
    then show ?thesis using assms(2)[of p] p by auto
  next
    case False
    then show ?thesis using assms(1) p unfolding down_ok_def by blast
  qed
qed

lemma ordered_down_ok: "ordered k f n \<Longrightarrow> down_ok k f n 1"
  unfolding down_ok_def ordered_def by auto

lemma down_ok_swap:
  assumes u: "down_ok k f n (x div 2)" and x: "2 \<le> x" "x \<le> n" and lt: "k (f x) < k (f (x div 2))"
    and mn: "\<And>p. 2 \<le> p \<Longrightarrow> p \<le> n \<Longrightarrow> p div 2 = x div 2 \<Longrightarrow> k (f x) \<le> k (f p)"
  shows "down_ok k (f(x := f (x div 2), x div 2 := f x)) n x"
proof -
  define c where "c = x div 2"
  define f' where "f' = f(x := f c, c := f x)"
  have c: "1 \<le> c" "c \<le> n" "c \<noteq> x" "c < x" using x by (auto simp: c_def)
  have f': "f' x = f c" "f' c = f x" "\<And>y. y \<noteq> x \<Longrightarrow> y \<noteq> c \<Longrightarrow> f' y = f y"
    using c by (auto simp: f'_def)
  have u1: "k (f (p div 2)) \<le> k (f p)" if "2 \<le> p" "p \<le> n" "p div 2 \<noteq> c" for p
    using u that unfolding down_ok_def c_def by blast
  have u2: "k (f (c div 2)) \<le> k (f p)" if "2 \<le> p" "p \<le> n" "p div 2 = c" "2 \<le> c" for p
    using u that unfolding down_ok_def c_def by blast
  have "k (f' (p div 2)) \<le> k (f' p)" if p: "2 \<le> p" "p \<le> n" "p div 2 \<noteq> x" for p
  proof -
    consider "p = x" | "p = c" | "p \<noteq> x" "p div 2 = c" | "p \<noteq> x" "p \<noteq> c" "p div 2 \<noteq> c"
      by blast
    then show ?thesis
    proof cases
      case 1
      then show ?thesis using lt f' by (simp add: c_def[symmetric])
    next
      case 2
      have g: "c div 2 \<noteq> x" "c div 2 \<noteq> c" "2 \<le> c" using c p 2 by linarith+
      have "k (f (c div 2)) \<le> k (f x)" using u2[of x] x g by (simp add: c_def)
      then show ?thesis using 2 f' g by simp
    next
      case 3
      have "p \<noteq> c" using 3 p by linarith
      then have "f' p = f p" using 3 f'(3) by blast
      then show ?thesis using mn[OF p(1,2)] 3 f' by (simp add: c_def)
    next
      case 4
      have "f' p = f p" "f' (p div 2) = f (p div 2)" using 4 p(3) f'(3) by blast+
      then show ?thesis using u1[OF p(1,2) 4(3)] by simp
    qed
  qed
  moreover have "k (f' (x div 2)) \<le> k (f' p)" if p: "2 \<le> p" "p \<le> n" "p div 2 = x" "2 \<le> x" for p
  proof -
    have "p \<noteq> x" "p \<noteq> c" using p c by linarith+
    then have "f' p = f p" using f'(3) by blast
    moreover have "k (f x) \<le> k (f p)" using u1[OF p(1,2)] p(3) c by simp
    ultimately show ?thesis using f' by (simp add: c_def[symmetric])
  qed
  ultimately show ?thesis unfolding down_ok_def c_def[symmetric] f'_def[symmetric] by blast
qed

lemma swap_down:
  fixes m :: "'k::linorder mem"
  assumes ct: "ctree m f n" and x: "2 \<le> x" "x \<le> n"
    and root: "root_node h = pos f n 1" and last: "last_node h = pos f n n"
  shows "\<exists>h1. (if x = 2 * (x div 2) then heap_swap_left (h, m) (f (x div 2)) else heap_swap_right (h, m) (f (x div 2)))
           = Some (h1, swap_mem m (f x) (f (x div 2)))
      \<and> root_node h1 = pos (f(x := f (x div 2), x div 2 := f x)) n 1
      \<and> last_node h1 = pos (f(x := f (x div 2), x div 2 := f x)) n n
      \<and> count h1 = count h"
proof -
  define c where "c = x div 2"
  define f1 where "f1 = f(x := f c, c := f x)"
  define h1 where "h1 = (if parent (m (f c)) = None then h\<lparr>root_node := Some (f x)\<rparr> else h)
             \<lparr>last_node := (if last_node h = Some (f x) then Some (f c) else last_node h)\<rparr>"
  have c: "1 \<le> c" "c \<le> n" "c \<noteq> x" "c < x" "1 \<le> x" using x by (auto simp: c_def)
  have cx: "x = 2 * c \<or> x = 2 * c + 1" unfolding c_def by linarith
  have lo: "local_ok m (f x) (f c)" unfolding c_def by (rule ctree_local_ok[OF ct x])
  have f1: "f1 x = f c" "f1 c = f x" "\<And>y. y \<noteq> x \<Longrightarrow> y \<noteq> c \<Longrightarrow> f1 y = f y"
    using c by (auto simp: f1_def)
  have sw: "(if x = 2 * c then heap_swap_left (h, m) (f c) else heap_swap_right (h, m) (f c)) = Some (h1, swap_mem m (f x) (f c))"
  proof (cases "x = 2 * c")
    case True
    have "left (m (f c)) = Some (f x)" using ctree_fields(2)[OF ct c(1,2)] True x by (simp add: pos_def)
    from heap_swap_left_mem[OF lo this, of h] show ?thesis using True by (simp add: h1_def)
  next
    case False
    then have "x = 2 * c + 1" using cx by simp
    then have "right (m (f c)) = Some (f x)" using ctree_fields(3)[OF ct c(1,2)] x by (simp add: pos_def)
    from heap_swap_right_mem[OF lo this, of h] show ?thesis using False by (simp add: h1_def)
  qed
  have r: "root_node h1 = pos f1 n 1"
  proof (cases "c = 1")
    case True
    then have "parent (m (f c)) = None" using ctree_fields(1)[OF ct c(1,2)] by (simp add: pos_def)
    then show ?thesis using True c f1 by (simp add: h1_def pos_def)
  next
    case False
    then have "1 \<le> c div 2 \<and> c div 2 \<le> n" using c by linarith
    then have "parent (m (f c)) \<noteq> None" using ctree_fields(1)[OF ct c(1,2)] by (simp add: pos_def)
    moreover have "f1 1 = f 1" using False c f1(3)[of 1] x by auto
    ultimately show ?thesis using root by (auto simp add: h1_def pos_def)
  qed
  have n1: "1 \<le> n" using x by simp
  have l: "last_node h1 = pos f1 n n"
  proof (cases "x = n")
    case True
    then have "last_node h = Some (f x)" using last n1 by (simp add: pos_def)
    then show ?thesis using True f1 n1 by (simp add: h1_def pos_def)
  next
    case False
    then have "n \<noteq> c" using cx x by linarith
    then have "f1 n = f n" using False f1(3)[of n] by auto
    moreover have "last_node h \<noteq> Some (f x)"
      using last False ctree_eq_iff[OF ct n1 order_refl c(5) x(2)] n1 by (simp add: pos_def)
    ultimately show ?thesis using last n1 by (simp add: h1_def pos_def)
  qed
  have "count h1 = count h" by (simp add: h1_def)
  then show ?thesis using sw r l unfolding c_def[symmetric] f1_def[symmetric] by blast
qed

lemma guard_gt_pos:
  "guard_gt m a (pos f n p) = (1 \<le> p \<and> p \<le> n \<and> key (m (f p)) < key (m a))"
  by (auto simp add: guard_gt_def pos_def)

lemma heap_increse_key_correct:
  fixes m :: "'k::linorder mem"
  assumes "ctree m f n" "1 \<le> c" "c \<le> n" "root_node h = pos f n 1" "last_node h = pos f n n"
  shows "\<exists>h' m' f'. heap_increse_key (h, m) (f c) = Some (h', m')
     \<and> ctree m' f' n \<and> root_node h' = pos f' n 1 \<and> last_node h' = pos f' n n \<and> count h' = count h
     \<and> f' ` {1..n} = f ` {1..n}
     \<and> (\<forall>a. key (m' a) = key (m a)) \<and> (\<forall>a. a \<notin> f ` {1..n} \<longrightarrow> m' a = m a)
     \<and> (down_ok (\<lambda>a. key (m a)) f n c \<longrightarrow> ordered (\<lambda>a. key (m' a)) f' n)"
  using assms
proof (induction "n - c" arbitrary: c h m f rule: less_induct)
  case less
  note ct = less.prems(1) and c = less.prems(2,3) and root = less.prems(4) and last = less.prems(5)
  define gL where "gL \<longleftrightarrow> 2 * c \<le> n \<and> key (m (f (2 * c))) < key (m (f c))"
  define gR where "gR \<longleftrightarrow> 2 * c + 1 \<le> n \<and> key (m (f (2 * c + 1))) < key (m (f c))"
  have gl: "guard_gt m (f c) (left (m (f c))) = gL"
    unfolding ctree_fields(2)[OF ct c] guard_gt_pos gL_def using c by auto
  have gr: "guard_gt m (f c) (right (m (f c))) = gR"
    unfolding ctree_fields(3)[OF ct c] guard_gt_pos gR_def using c by auto
  show ?case
  proof (cases "gL \<or> gR")
    case False
    have "heap_increse_key (h, m) (f c) = Some (h, m)"
      using False by (subst heap_increse_key.simps) (simp add: gl gr Let_def)
    moreover have "down_ok (\<lambda>a. key (m a)) f n c \<longrightarrow> ordered (\<lambda>a. key (m a)) f n"
    proof
      assume d: "down_ok (\<lambda>a. key (m a)) f n c"
      show "ordered (\<lambda>a. key (m a)) f n"
      proof (rule down_ok_done[OF d])
        fix p assume p: "2 \<le> p" "p \<le> n" "p div 2 = c"
        then have "p = 2 * c \<or> p = 2 * c + 1" by linarith
        then show "key (m (f c)) \<le> key (m (f p))"
          using False p(2) by (auto simp: gL_def gR_def not_less)
      qed
    qed
    ultimately show ?thesis using ct root last
      by (intro exI[of _ h] exI[of _ m] exI[of _ f] conjI) simp_all
  next
    case True
    define x where "x = (if gL then (if gR then (if key (m (f (2 * c))) < key (m (f (2 * c + 1))) then 2 * c else 2 * c + 1) else 2 * c) else 2 * c + 1)"
    have xc: "x = 2 * c \<or> x = 2 * c + 1" by (auto simp: x_def)
    have x: "2 \<le> x" "x \<le> n" "x div 2 = c" "c < x"
      using True c xc by (auto simp: x_def gL_def gR_def)
    have lt: "key (m (f x)) < key (m (f c))"
      using True by (auto simp: x_def gL_def gR_def)
    have mn: "key (m (f x)) \<le> key (m (f p))" if p: "2 \<le> p" "p \<le> n" "p div 2 = x div 2" for p
    proof -
      have "p = 2 * c \<or> p = 2 * c + 1" using p(3) x(3) by linarith
      then show ?thesis using True p(2) lt
        by (auto simp: x_def gL_def gR_def not_less split: if_splits)
    qed
    have lr: "the (left (m (f c))) = f (2 * c)" if "gL"
      using that c unfolding ctree_fields(2)[OF ct c] by (simp add: pos_def gL_def)
    have rr: "the (right (m (f c))) = f (2 * c + 1)" if "gR"
      using that c unfolding ctree_fields(3)[OF ct c] by (simp add: pos_def gR_def)
    have unf: "heap_increse_key (h, m) (f c) =
       (case (if x = 2 * (x div 2) then heap_swap_left (h, m) (f (x div 2)) else heap_swap_right (h, m) (f (x div 2))) of
          None \<Rightarrow> None | Some s' \<Rightarrow> heap_increse_key s' (f c))"
      using True lr rr
      by (subst heap_increse_key.simps) (auto simp: gl gr Let_def x_def x(3)[unfolded x_def])
    define f1 where "f1 = f(x := f c, c := f x)"
    define M where "M = swap_mem m (f x) (f c)"
    from swap_down[OF ct x(1,2) root last] obtain h1 where h1:
      "(if x = 2 * (x div 2) then heap_swap_left (h, m) (f (x div 2)) else heap_swap_right (h, m) (f (x div 2)))
           = Some (h1, M)"
      "root_node h1 = pos f1 n 1" "last_node h1 = pos f1 n n" "count h1 = count h"
      unfolding x(3) M_def f1_def by blast
    have ct1: "ctree M f1 n" using ctree_swap_mem[OF ct x(1,2)] unfolding x(3) M_def f1_def .
    have f1x: "f1 x = f c" using x by (simp add: f1_def)
    have "n - x < n - c" using x by linarith
    from less.hyps[OF this ct1 _ x(2) h1(2,3)] x(1)
    obtain h' m' f' where IH:
      "heap_increse_key (h1, M) (f1 x) = Some (h', m')"
      "ctree m' f' n" "root_node h' = pos f' n 1" "last_node h' = pos f' n n" "count h' = count h1"
      "f' ` {1..n} = f1 ` {1..n}"
      "\<forall>a. key (m' a) = key (M a)" "\<forall>a. a \<notin> f1 ` {1..n} \<longrightarrow> m' a = M a"
      "down_ok (\<lambda>a. key (M a)) f1 n x \<longrightarrow> ordered (\<lambda>a. key (m' a)) f' n"
      by auto
    have img: "f1 ` {1..n} = f ` {1..n}"
      unfolding f1_def using c x by (intro image_swap) auto
    have keyM: "key (M a) = key (m a)" for a unfolding M_def by (rule swap_mem_key)
    have frameM: "M a = m a" if "a \<notin> f ` {1..n}" for a
      using swap_mem_frame[OF ct x(1,2) that] unfolding M_def x(3) .
    have run: "heap_increse_key (h, m) (f c) = Some (h', m')"
      unfolding unf h1(1) using IH(1) by (simp add: f1x)
    have dn: "down_ok (\<lambda>a. key (m a)) f n c \<longrightarrow> ordered (\<lambda>a. key (m' a)) f' n"
    proof
      assume "down_ok (\<lambda>a. key (m a)) f n c"
      then have d: "down_ok (\<lambda>a. key (m a)) f n (x div 2)" by (simp only: x(3))
      have lt': "key (m (f x)) < key (m (f (x div 2)))" using lt by (simp only: x(3))
      have "down_ok (\<lambda>a. key (m a)) (f(x := f (x div 2), x div 2 := f x)) n x"
        by (rule down_ok_swap[OF d x(1,2) lt' mn])
      then have "down_ok (\<lambda>a. key (m a)) f1 n x" by (simp only: x(3) f1_def)
      then show "ordered (\<lambda>a. key (m' a)) f' n" using IH(9) by (simp add: keyM)
    qed
    show ?thesis
      using run IH(2-8) dn img keyM frameM h1(4)
      by (intro exI[of _ h'] exI[of _ m'] exI[of _ f'] conjI) simp_all
  qed
qed

section \<open>Properties\<close>

text \<open>
  C6: \<open>heap_extract_min\<close> on an empty heap (\<open>count = 0\<close>, root and last \<open>NULL\<close>) returns
  \<open>NULL\<close> and leaves the whole state as it was.
\<close>

theorem extract_min_empty:
  "heap_extract_min (\<lparr>count = 0, root_node = None, last_node = None\<rparr>, m) =
     Some (None, (\<lparr>count = 0, root_node = None, last_node = None\<rparr>, m))"
  by (simp add: heap_extract_min_def)


end
